theory Spec2Isabelle
  imports Main
begin

section \<open>Decimal rendering of Python integers\<close>

text \<open>
  \<^verbatim>\<open>str(n)\<close> and the \<^verbatim>\<open>{n}\<close> placeholder of an f-string, for a Python \<^verbatim>\<open>int\<close>:
  the decimal digits, most significant first, with a leading minus sign for a negative
  number.
\<close>

definition digit_char :: "nat \<Rightarrow> char" where
  "digit_char d =
     (if d = 0 then CHR ''0'' else if d = 1 then CHR ''1'' else if d = 2 then CHR ''2''
      else if d = 3 then CHR ''3'' else if d = 4 then CHR ''4'' else if d = 5 then CHR ''5''
      else if d = 6 then CHR ''6'' else if d = 7 then CHR ''7'' else if d = 8 then CHR ''8''
      else CHR ''9'')"

function str_nat :: "nat \<Rightarrow> string" where
  "str_nat n = (if n < 10 then [digit_char n] else str_nat (n div 10) @ [digit_char (n mod 10)])"
  by pat_completeness auto
termination
  by (relation "measure id") auto

declare str_nat.simps [simp del]

definition str_int :: "int \<Rightarrow> string" where
  "str_int i = (if i < 0 then CHR ''-'' # str_nat (nat (- i)) else str_nat (nat i))"

section \<open>The emitted IR\<close>

text \<open>
  The IR library (\<^verbatim>\<open>mlir_python\<close>) is not part of the repository; the generator only
  builds operations through it. The model keeps what the generator can observe of a
  module: the functions of the module body, the blocks with their argument types and
  operations, and the region every block lives in. A block is named by the number it
  got when it was created, a value is the result of an operation (the block and the
  position the operation was inserted at) or an argument of a block.
\<close>

type_synonym bid = nat

datatype val = OpResult bid nat | BlockArg bid nat

datatype mtype = ScopeType | CellType | ValueType | ReturnValueType

text \<open>The operation classes that \<^verbatim>\<open>bin_operator_map\<close>, \<^verbatim>\<open>comparison_map\<close> and
  \<^verbatim>\<open>unary_operator_map\<close> map to.\<close>

datatype opclass =
    AddOp | BitAndOp | BitOrOp | BitXorOp | DivOp | FloorDivOp | LShiftOp | ModOp
  | MultOp | MatMultOp | PowOp | RShiftOp | SubOp
  | EqOp | GtOp | GtEOp | InOp | IsOp | IsNotOp | LtOp | LtEOp | NotEqOp | NotInOp
  | InvertOp | NotOp | UAddOp | USubOp

text \<open>
  The operations of the three dialects, with the operands, attributes and successor
  blocks the generator passes. The fallible operations (\<open>InvokeOp\<close>, the binary and the
  unary operator operations) are always built with two empty successor operand lists,
  which are left out; their last two fields are the success and the failure successor.
\<close>

datatype operation =
    CellAlloc
  | CellLoad val
  | CellStore val val
  | IsInstance val string
  | Truthy val
  | UndefinedOp
  | NoneOp
  | GetMethod val string
  | MkExceptOp val
  | MkReturnOp val
  | ReturnOp "val list"
  | InvokeOp val "val list" "string list option" bid bid
  | BinaryOp opclass val val bid bid
  | UnaryOp opclass val bid bid
  | Module_op string
  | FormattedString "val list"
  | StrLit string
  | S64Lit int
  | IntLit string
  | Builtin string
  | ScopeInit "string list" "val list"
  | ScopeExtend val "string list" "val list"
  | FunctionRef string "string list" val "val list"
  | List_op "val list"
  | Tuple_op "val list"
  | TupleCheck val int
  | TupleGet val int
  | ArraySet val val val
  | BranchOp "val list" bid
  | CondBranchOp val "val list" "val list" bid bid

record Block =
  b_args :: "mtype list"
  b_ops :: "operation list"
  b_region :: nat

record FuncOp =
  sym_name :: string
  arg_types :: "mtype list"
  result_types :: "mtype list"

section \<open>Scopes and the module\<close>

text \<open>An \<^verbatim>\<open>ast.Name\<close> node: the identifier and the source position.\<close>

datatype name_node = Name (ident: string) (lineno: int) (col_offset: int)

text \<open>
  \<^verbatim>\<open>VariableScope\<close>: \<^verbatim>\<open>vars\<close> is a dictionary used as an insertion-ordered set of
  names, \<^verbatim>\<open>parent_vars\<close> the list of the referenced \<^verbatim>\<open>ast.Name\<close> nodes.
\<close>

record VariableScope =
  vars :: "string list"
  parent_vars :: "name_node list"

text \<open>
  \<^verbatim>\<open>Module\<close>: the MLIR module (the functions of its body in order, the block store,
  the number of blocks created and the order of the blocks in their regions), the scope
  map keyed by \<^verbatim>\<open>id(node)\<close>, and the counter table \<^verbatim>\<open>_vars\<close> of \<^verbatim>\<open>fresh_symbol\<close>.
\<close>

record Module =
  funcs :: "FuncOp list"
  blocks :: "bid \<Rightarrow> Block"
  next_block :: nat
  layout :: "bid list"
  scope_map :: "nat \<rightharpoonup> VariableScope"
  m_vars :: "string \<rightharpoonup> int"

subsection \<open>The name allocator: \<^verbatim>\<open>Module.fresh_symbol\<close>\<close>

text \<open>The first half of \<^verbatim>\<open>fresh_symbol\<close>: the stem \<^verbatim>\<open>nm\<close> that is looked up.\<close>

definition symbol_stem :: "string option \<Rightarrow> string" where
  "symbol_stem nm =
     (case nm of
        None \<Rightarrow> ''_mlir_gen''
      | Some s \<Rightarrow>
          (let t = filter (\<lambda>c. c \<noteq> CHR ''@'') s
           in if t = [] then ''_mlir_gen'' else t))"

definition fresh_symbol ::
  "string option \<Rightarrow> 'a Module_scheme \<Rightarrow> string \<times> 'a Module_scheme" where
  "fresh_symbol nm m =
     (let stem = symbol_stem nm
      in case m_vars m stem of
           None \<Rightarrow> (stem, m\<lparr>m_vars := (m_vars m)(stem \<mapsto> 0)\<rparr>)
         | Some cnt \<Rightarrow>
             (stem @ ''@'' @ str_int cnt, m\<lparr>m_vars := (m_vars m)(stem \<mapsto> cnt + 1)\<rparr>))"

text \<open>A sequence of requests against one module, in order.\<close>

fun fresh_symbols ::
  "string option list \<Rightarrow> 'a Module_scheme \<Rightarrow> string list \<times> 'a Module_scheme" where
  "fresh_symbols [] m = ([], m)"
| "fresh_symbols (nm # nms) m =
     (let (x, m1) = fresh_symbol nm m;
          (xs, m2) = fresh_symbols nms m1
      in (x # xs, m2))"

text \<open>How many of the requests before position \<open>i\<close> had the stem of request \<open>i\<close>.\<close>

definition earlier_requests :: "string option list \<Rightarrow> nat \<Rightarrow> nat" where
  "earlier_requests nms i =
     length (filter (\<lambda>b. symbol_stem b = symbol_stem (nms ! i)) (take i nms))"

section \<open>Properties of the name allocator\<close>

lemma digit_char_inj: "a < 10 \<Longrightarrow> b < 10 \<Longrightarrow> digit_char a = digit_char b \<Longrightarrow> a = b"
  unfolding digit_char_def
  apply (simp split: if_splits)
  apply arith
  done

lemma str_nat_nonempty: "str_nat n \<noteq> []"
  by (subst str_nat.simps) simp

lemma str_nat_inj: "str_nat n = str_nat m \<Longrightarrow> n = m"
proof (induction n arbitrary: m rule: str_nat.induct)
  case (1 n)
  show ?case
  proof (cases "n < 10")
    case True
    note n = this
    show ?thesis
    proof (cases "m < 10")
      case True
      with n "1.prems" show ?thesis
        by (subst (asm) str_nat.simps, subst (asm) (2) str_nat.simps) (simp add: digit_char_inj)
    next
      case False
      with n "1.prems" have "[digit_char n] = str_nat (m div 10) @ [digit_char (m mod 10)]"
        by (subst (asm) str_nat.simps, subst (asm) (2) str_nat.simps) simp
      then show ?thesis using str_nat_nonempty[of "m div 10"] by simp
    qed
  next
    case False
    note n = this
    show ?thesis
    proof (cases "m < 10")
      case True
      with n "1.prems" have "str_nat (n div 10) @ [digit_char (n mod 10)] = [digit_char m]"
        by (subst (asm) str_nat.simps, subst (asm) (2) str_nat.simps) simp
      then show ?thesis using str_nat_nonempty[of "n div 10"] by simp
    next
      case False
      with n "1.prems" have e: "str_nat (n div 10) @ [digit_char (n mod 10)] = str_nat (m div 10) @ [digit_char (m mod 10)]"
        by (subst (asm) str_nat.simps, subst (asm) (2) str_nat.simps) simp
      then have "str_nat (n div 10) = str_nat (m div 10)" and d: "digit_char (n mod 10) = digit_char (m mod 10)"
        by simp_all
      with "1.IH" n have "n div 10 = m div 10" by simp
      moreover have "n mod 10 = m mod 10" using d by (intro digit_char_inj) simp_all
      ultimately show ?thesis by (metis div_mult_mod_eq)
    qed
  qed
qed

lemma digit_char_not_minus: "digit_char d \<noteq> CHR ''-''"
  unfolding digit_char_def by simp

lemma str_nat_hd: "hd (str_nat n) \<noteq> CHR ''-''"
proof (induction n rule: str_nat.induct)
  case (1 n)
  show ?case
    by (subst str_nat.simps) (use 1 str_nat_nonempty[of "n div 10"] in \<open>auto simp: digit_char_not_minus hd_append\<close>)
qed

lemma str_int_inj:
  assumes "str_int i = str_int j"
  shows "i = j"
proof (cases "i < 0")
  case True
  note i = this
  show ?thesis
  proof (cases "j < 0")
    case True
    with i assms have "str_nat (nat (- i)) = str_nat (nat (- j))"
      by (simp add: str_int_def)
    then have "nat (- i) = nat (- j)" by (rule str_nat_inj)
    with i True show ?thesis by arith
  next
    case False
    with i assms have "CHR ''-'' # str_nat (nat (- i)) = str_nat (nat j)"
      by (simp add: str_int_def)
    then have "hd (str_nat (nat j)) = CHR ''-''"
      using list.sel(1)[of "CHR ''-''" "str_nat (nat (- i))"] by simp
    with str_nat_hd show ?thesis by blast
  qed
next
  case False
  note i = this
  show ?thesis
  proof (cases "j < 0")
    case True
    with i assms have "str_nat (nat i) = CHR ''-'' # str_nat (nat (- j))"
      by (simp add: str_int_def)
    then have "hd (str_nat (nat i)) = CHR ''-''"
      by simp
    with str_nat_hd show ?thesis by blast
  next
    case False
    with i assms have "str_nat (nat i) = str_nat (nat j)"
      by (simp add: str_int_def)
    then have "nat i = nat j" by (rule str_nat_inj)
    with i False show ?thesis by arith
  qed
qed

lemma stem_no_at: "CHR ''@'' \<notin> set (symbol_stem nm)"
  unfolding symbol_stem_def by (auto split: option.splits simp: Let_def)

lemma fresh_symbols_Cons:
  "fst (fresh_symbols (nm # nms) m) =
     fst (fresh_symbol nm m) # fst (fresh_symbols nms (snd (fresh_symbol nm m)))"
  by (simp add: case_prod_unfold Let_def)

declare fresh_symbols.simps(2) [simp del]

lemma fresh_symbols_length: "length (fst (fresh_symbols nms m)) = length nms"
  by (induction nms arbitrary: m) (simp_all add: fresh_symbols_Cons del: fresh_symbols.simps(2))

lemma fresh_symbol_vars:
  "m_vars (snd (fresh_symbol nm m)) =
     (m_vars m)(symbol_stem nm \<mapsto> (case m_vars m (symbol_stem nm) of None \<Rightarrow> 0 | Some c \<Rightarrow> c + 1))"
  unfolding fresh_symbol_def by (auto simp: Let_def split: option.splits)

lemma fresh_symbol_fst:
  "fst (fresh_symbol nm m) =
     (case m_vars m (symbol_stem nm) of None \<Rightarrow> symbol_stem nm
        | Some c \<Rightarrow> symbol_stem nm @ ''@'' @ str_int c)"
  unfolding fresh_symbol_def by (auto simp: Let_def split: option.splits)

lemma fresh_symbols_nth:
  "i < length nms \<Longrightarrow>
   fst (fresh_symbols nms m) ! i =
     (case m_vars m (symbol_stem (nms ! i)) of
        None \<Rightarrow> if earlier_requests nms i = 0 then symbol_stem (nms ! i)
                else symbol_stem (nms ! i) @ ''@'' @ str_int (int (earlier_requests nms i) - 1)
      | Some c \<Rightarrow> symbol_stem (nms ! i) @ ''@'' @ str_int (c + int (earlier_requests nms i)))"
proof (induction nms arbitrary: m i)
  case Nil
  then show ?case by simp
next
  case (Cons nm nms)
  let ?m1 = "snd (fresh_symbol nm m)"
  show ?case
  proof (cases i)
    case 0
    then show ?thesis
      by (simp add: fresh_symbols_Cons fresh_symbol_fst earlier_requests_def
            del: fresh_symbols.simps(2) split: option.splits)
  next
    case (Suc k)
    with Cons.prems have k: "k < length nms" by simp
    have e: "earlier_requests (nm # nms) (Suc k) =
          (if symbol_stem nm = symbol_stem (nms ! k) then 1 else 0) + earlier_requests nms k"
      by (simp add: earlier_requests_def)
    have "fst (fresh_symbols (nm # nms) m) ! i = fst (fresh_symbols nms ?m1) ! k"
      using Suc by (simp add: fresh_symbols_Cons del: fresh_symbols.simps(2))
    also note Cons.IH[OF k, of ?m1]
    finally show ?thesis
      unfolding Suc e fresh_symbol_vars
      by (cases "symbol_stem nm = symbol_stem (nms ! k)")
         (simp_all add: algebra_simps split: option.splits)
  qed
qed

lemma fresh_symbols_congr:
  "m_vars m1 = m_vars m2 \<Longrightarrow> fst (fresh_symbols nms m1) = fst (fresh_symbols nms m2)"
proof (induction nms arbitrary: m1 m2)
  case Nil
  then show ?case by simp
next
  case (Cons nm nms)
  have a: "fst (fresh_symbol nm m1) = fst (fresh_symbol nm m2)"
    using Cons.prems by (simp add: fresh_symbol_fst)
  have b: "m_vars (snd (fresh_symbol nm m1)) = m_vars (snd (fresh_symbol nm m2))"
    using Cons.prems by (simp add: fresh_symbol_vars)
  from Cons.IH[OF b] a show ?case
    by (simp add: fresh_symbols_Cons del: fresh_symbols.simps(2))
qed

lemma earlier_mono:
  assumes "i < j" "j < length nms" "symbol_stem (nms ! i) = symbol_stem (nms ! j)"
  shows "earlier_requests nms i < earlier_requests nms j"
proof -
  let ?P = "\<lambda>b. symbol_stem b = symbol_stem (nms ! j)"
  have a: "take j nms = take (Suc i) (take j nms) @ drop (Suc i) (take j nms)"
    by (rule append_take_drop_id[symmetric])
  have b: "take (Suc i) (take j nms) = take (Suc i) nms"
    using assms(1) by (simp add: min_def)
  have c: "take (Suc i) nms = take i nms @ [nms ! i]"
    using assms(1,2) by (simp add: take_Suc_conv_app_nth)
  have "take j nms = (take i nms @ [nms ! i]) @ drop (Suc i) (take j nms)"
    using a b c by simp
  then have "filter ?P (take j nms) =
        filter ?P ((take i nms @ [nms ! i]) @ drop (Suc i) (take j nms))"
    by simp
  then have "filter ?P (take j nms) =
        filter ?P (take i nms) @ nms ! i # filter ?P (drop (Suc i) (take j nms))"
    by (simp add: assms(3))
  then have "length (filter ?P (take i nms)) < length (filter ?P (take j nms))"
    by simp
  then show ?thesis
    unfolding earlier_requests_def assms(3) .
qed

lemma split_at_eq:
  "c \<notin> set a \<Longrightarrow> c \<notin> set b \<Longrightarrow> a @ c # x = b @ c # y \<Longrightarrow> a = b \<and> x = y"
proof (induction a arbitrary: b)
  case Nil
  then show ?case by (cases b) auto
next
  case (Cons a0 a)
  show ?case
  proof (cases b)
    case Nil
    with Cons.prems show ?thesis by auto
  next
    case (Cons d b')
    with Cons.prems have "a0 = d" "c \<notin> set a" "c \<notin> set b'" "a @ c # x = b' @ c # y"
      by auto
    with Cons.IH[of b'] Cons show ?thesis by simp
  qed
qed

text \<open>
  Claim C7. From a fresh module (an empty counter table), request \<open>i\<close> of a sequence of
  requests returns the stem of its base (the base with every \<open>@\<close> removed, or
  \<open>_mlir_gen\<close> for a null base and for a base that is empty once stripped) when no earlier
  request had that stem, and the stem followed by \<open>@\<close> and \<open>k - 1\<close> when \<open>k > 0\<close> earlier
  requests had it: the stem first, then \<open>stem@0\<close>, \<open>stem@1\<close>, and so on. The returned names are
  pairwise distinct, and they depend on nothing of the module but the counter table:
  two modules with the same table answer the same sequence of requests alike.
\<close>

theorem fresh_symbol_names:
  "length (fst (fresh_symbols nms m)) = length nms \<and>
   (m_vars m = Map.empty \<longrightarrow>
      (\<forall>i<length nms.
         fst (fresh_symbols nms m) ! i =
           (if earlier_requests nms i = 0 then symbol_stem (nms ! i)
            else symbol_stem (nms ! i) @ ''@'' @ str_int (int (earlier_requests nms i) - 1))) \<and>
      distinct (fst (fresh_symbols nms m))) \<and>
   symbol_stem None = ''_mlir_gen'' \<and>
   symbol_stem (Some s) =
     (if filter (\<lambda>c. c \<noteq> CHR ''@'') s = [] then ''_mlir_gen''
      else filter (\<lambda>c. c \<noteq> CHR ''@'') s) \<and>
   (m_vars m' = m_vars m \<longrightarrow> fst (fresh_symbols nms m') = fst (fresh_symbols nms m))"
proof -
  let ?out = "fst (fresh_symbols nms m)"
  let ?nm = "\<lambda>i. if earlier_requests nms i = 0 then symbol_stem (nms ! i)
            else symbol_stem (nms ! i) @ ''@'' @ str_int (int (earlier_requests nms i) - 1)"
  have len: "length ?out = length nms" by (rule fresh_symbols_length)
  have nth: "?out ! i = ?nm i" if "m_vars m = Map.empty" "i < length nms" for i
    using fresh_symbols_nth[OF that(2), of m] that(1) by simp
  have inj: "i = j" if e: "?nm i = ?nm j" and ij: "i \<le> j" "j < length nms" for i j
  proof (rule ccontr)
    assume "i \<noteq> j"
    with ij have lt: "i < j" by simp
    define si where "si = symbol_stem (nms ! i)"
    define sj where "sj = symbol_stem (nms ! j)"
    define ki where "ki = earlier_requests nms i"
    define kj where "kj = earlier_requests nms j"
    define xi where "xi = str_int (int ki - 1)"
    define xj where "xj = str_int (int kj - 1)"
    have at: "CHR ''@'' \<notin> set si" "CHR ''@'' \<notin> set sj"
      unfolding si_def sj_def by (rule stem_no_at)+
    have e': "(if ki = 0 then si else si @ CHR ''@'' # xi) = (if kj = 0 then sj else sj @ CHR ''@'' # xj)"
      using e unfolding si_def sj_def ki_def kj_def xi_def xj_def
      by (simp only: append_Cons append_Nil)
    have st: "si = sj"
    proof (cases "ki = 0")
      case True
      note i0 = this
      show ?thesis
      proof (cases "kj = 0")
        case True
        from e' show ?thesis unfolding if_P[OF i0] if_P[OF True] .
      next
        case False
        from e' have "si = sj @ CHR ''@'' # xj" unfolding if_P[OF i0] if_not_P[OF False] .
        then have "set si = set (sj @ CHR ''@'' # xj)" by (rule arg_cong)
        then have "CHR ''@'' \<in> set si" by simp
        with at(1) show ?thesis by (rule notE)
      qed
    next
      case False
      note i0 = this
      show ?thesis
      proof (cases "kj = 0")
        case True
        from e' have "si @ CHR ''@'' # xi = sj" unfolding if_not_P[OF i0] if_P[OF True] .
        then have "set (si @ CHR ''@'' # xi) = set sj" by (rule arg_cong)
        then have "CHR ''@'' \<in> set sj" by auto
        with at(2) show ?thesis by (rule notE)
      next
        case False
        from e' have "si @ CHR ''@'' # xi = sj @ CHR ''@'' # xj"
          unfolding if_not_P[OF i0] if_not_P[OF False] .
        from split_at_eq[OF at this] show ?thesis by (rule conjunct1)
      qed
    qed
    have m: "ki < kj"
      unfolding ki_def kj_def
      by (rule earlier_mono[OF lt ij(2)]) (use st in \<open>simp add: si_def sj_def\<close>)
    then have j0: "kj \<noteq> 0" by simp
    show False
    proof (cases "ki = 0")
      case True
      from e' have "si = sj @ CHR ''@'' # xj" unfolding if_P[OF True] if_not_P[OF j0] .
      then have "length si = length (sj @ CHR ''@'' # xj)" by (rule arg_cong)
      then show False unfolding st by simp
    next
      case False
      from e' have "si @ CHR ''@'' # xi = sj @ CHR ''@'' # xj"
        unfolding if_not_P[OF False] if_not_P[OF j0] .
      from split_at_eq[OF at this] have "xi = xj"
        by (rule conjunct2)
      then have "int ki - 1 = int kj - 1" unfolding xi_def xj_def by (rule str_int_inj)
      with m show False by simp
    qed
  qed
  have dist: "distinct ?out" if e: "m_vars m = Map.empty"
    unfolding distinct_conv_nth len
  proof (intro allI impI)
    fix i j assume i: "i < length nms" and j: "j < length nms" and ne: "i \<noteq> j"
    show "?out ! i \<noteq> ?out ! j"
    proof
      assume "?out ! i = ?out ! j"
      then have eq: "?nm i = ?nm j" using nth[OF e i] nth[OF e j] by simp
      show False
      proof (cases "i \<le> j")
        case True
        from inj[OF eq True j] ne show False by simp
      next
        case False
        then have "j \<le> i" by simp
        from inj[OF eq[symmetric] this i] ne show False by simp
      qed
    qed
  qed
  have stem: "symbol_stem (Some s) =
     (if filter (\<lambda>c. c \<noteq> CHR ''@'') s = [] then ''_mlir_gen''
      else filter (\<lambda>c. c \<noteq> CHR ''@'') s)"
    by (simp add: symbol_stem_def Let_def)
  have none: "symbol_stem None = ''_mlir_gen''" by (simp add: symbol_stem_def)
  have pure: "fst (fresh_symbols nms m') = fst (fresh_symbols nms m)" if "m_vars m' = m_vars m"
    by (rule fresh_symbols_congr[OF that])
  show ?thesis
    apply (intro conjI impI allI)
    subgoal by (rule len)
    subgoal for i by (rule nth)
    subgoal by (rule dist)
    subgoal by (rule none)
    subgoal by (rule stem)
    subgoal by (rule pure)
    done
qed

theorem fresh_symbol_names_witness:
  "length (fst (fresh_symbols [Some ''f'', None, Some ''f@'']
      \<lparr>funcs = [], blocks = (\<lambda>b. \<lparr>b_args = [], b_ops = [], b_region = 0\<rparr>), next_block = 0,
       layout = [], scope_map = Map.empty, m_vars = Map.empty\<rparr>)) = 3 \<and>
   fst (fresh_symbols [Some ''f'', None, Some ''f@'']
      \<lparr>funcs = [], blocks = (\<lambda>b. \<lparr>b_args = [], b_ops = [], b_region = 0\<rparr>), next_block = 0,
       layout = [], scope_map = Map.empty, m_vars = Map.empty\<rparr>) ! 2 = ''f@0'' \<and>
   distinct (fst (fresh_symbols [Some ''f'', None, Some ''f@'']
      \<lparr>funcs = [], blocks = (\<lambda>b. \<lparr>b_args = [], b_ops = [], b_region = 0\<rparr>), next_block = 0,
       layout = [], scope_map = Map.empty, m_vars = Map.empty\<rparr>))"
proof -
  let ?m = "\<lparr>funcs = [], blocks = (\<lambda>b. \<lparr>b_args = [], b_ops = [], b_region = 0\<rparr>), next_block = 0,
       layout = [], scope_map = Map.empty, m_vars = Map.empty\<rparr>"
  let ?nms = "[Some ''f'', None, Some ''f@'']"
  note t = fresh_symbol_names[of ?nms ?m "[]" ?m]
  have len: "length (fst (fresh_symbols ?nms ?m)) = 3"
    using t by simp
  have e: "earlier_requests ?nms 2 = 1"
    by (simp add: earlier_requests_def symbol_stem_def)
  have s: "str_int 0 = ''0''"
    by (simp add: str_int_def str_nat.simps digit_char_def)
  have st: "symbol_stem (?nms ! 2) = ''f''"
    by (simp add: symbol_stem_def)
  from t have "\<forall>i<length ?nms. fst (fresh_symbols ?nms ?m) ! i =
           (if earlier_requests ?nms i = 0 then symbol_stem (?nms ! i)
            else symbol_stem (?nms ! i) @ ''@'' @ str_int (int (earlier_requests ?nms i) - 1))"
    by simp
  then have "fst (fresh_symbols ?nms ?m) ! 2 =
           (if earlier_requests ?nms 2 = 0 then symbol_stem (?nms ! 2)
            else symbol_stem (?nms ! 2) @ ''@'' @ str_int (int (earlier_requests ?nms 2) - 1))"
    by simp
  then have n2: "fst (fresh_symbols ?nms ?m) ! 2 = ''f@0''"
    unfolding e st using s by simp
  from t have d: "distinct (fst (fresh_symbols ?nms ?m))"
    by simp
  from len n2 d show ?thesis by simp
qed

end
